theory Spec2Isabelle
  imports Main
begin

section \<open>Data model of \<open>safe::unique_resource<T>\<close>\<close>

text \<open>
  A guard is the class \<open>unique_resource<T>\<close> of \<open>ResGuard.hpp\<close>: the payload
  \<open>value_\<close>, the flag \<open>valid_\<close> and the function pointer \<open>deleter_\<close>, written
  \<open>value'\<close>, \<open>valid'\<close> and \<open>deleter'\<close> here (a constant's name cannot end in an
  underscore). A function pointer of type \<open>void (*)(T&) noexcept\<close> is \<open>None\<close> when
  it is \<open>nullptr\<close> and \<open>Some d\<close> when it points at the function \<open>d\<close>.
\<close>

type_synonym addr = nat

type_synonym 'd deleter_type = "'d option"

record ('a, 'd) unique_resource =
  value' :: 'a
  valid' :: bool
  deleter' :: "'d deleter_type"

text \<open>
  The program state: the guards alive, by address (the methods compare and alias
  addresses), and the trace of the calls made through function pointers, each with
  the guard that made it, the pointer called and the value of the referenced payload
  at the call.
\<close>

record ('a, 'd) state =
  heap :: "addr \<Rightarrow> ('a, 'd) unique_resource option"
  calls :: "(addr \<times> 'd deleter_type \<times> 'a) list"

text \<open>
  The calls a program makes on guards, named by their addresses. \<open>Assign p v\<close> is a
  write of \<open>v\<close> through a reference to the payload of the guard at \<open>p\<close>: \<open>g.get() = v\<close>,
  or a write through the \<open>T&\<close> a releaser was called on.
\<close>

datatype ('a, 'd) op =
    Construct addr 'a "'d deleter_type"
  | MoveConstruct addr addr
  | MoveAssign addr addr
  | Get addr
  | Assign addr 'a
  | OperatorBool addr
  | Reset addr
  | ReleaseOwnership addr
  | Swap addr addr
  | SafeSwap addr addr
  | Destroy addr

text \<open>
  What the class is instantiated with. A releaser is code of the program: called on
  the payload of the guard at \<open>p\<close> in the state \<open>st\<close> (the call itself already in the
  trace), the function \<open>d\<close> makes the calls \<open>releaser E d p st\<close> on guards, which it
  reaches through the program's globals, its own guard among them, and returns; what
  it remembers from one call to the next it reads off the state.
  \<open>moved_from E v\<close> is what a move of \<open>T\<close> leaves in its source (the identity for
  integer handles).
\<close>

record ('a, 'd) env =
  releaser :: "'d \<Rightarrow> addr \<Rightarrow> ('a, 'd) state \<Rightarrow> ('a, 'd) op list"
  moved_from :: "'a \<Rightarrow> 'a"

text \<open>
  \<open>Terminate\<close> is \<open>std::terminate()\<close>. \<open>Lifetime\<close> is a call on an address outside the
  lifetime of a guard, or a construction over a live guard: no behaviour in C++.
  \<open>OutOfFuel\<close> is a releaser nested deeper than the bound a run was given.
\<close>

datatype error = Terminate | Lifetime | OutOfFuel

text \<open>How the calls a releaser makes are run: the interpreter one level further in.\<close>

type_synonym ('a, 'd) nest = "('a, 'd) op list \<Rightarrow> ('a, 'd) state \<Rightarrow> error + ('a, 'd) state"

definition init :: "('a, 'd) state" where
  "init = \<lparr>heap = (\<lambda>p. None), calls = []\<rparr>"

definition obj :: "('a, 'd) state \<Rightarrow> addr \<Rightarrow> ('a, 'd) unique_resource" where
  "obj st p = the (heap st p)"

definition store :: "addr \<Rightarrow> ('a, 'd) unique_resource \<Rightarrow> ('a, 'd) state \<Rightarrow> ('a, 'd) state" where
  "store p g st = st\<lparr>heap := (heap st)(p := Some g)\<rparr>"

definition live :: "('a, 'd) state \<Rightarrow> addr \<Rightarrow> bool" where
  "live st p = (heap st p \<noteq> None)"

section \<open>The methods\<close>

text \<open>
  \<open>void release() noexcept\<close>, lines 24-31. The test of line 26 reads the flag; line 28
  calls the releaser, with \<open>valid_\<close> still true while it runs; line 29 clears the flag
  of \<open>*this\<close> once the releaser has returned (if it ended the guard, the write has no
  object).
\<close>

definition release ::
  "('a, 'd) nest \<Rightarrow> ('a, 'd) env \<Rightarrow> addr \<Rightarrow> ('a, 'd) state \<Rightarrow> error + ('a, 'd) state" where
  "release nest E p st =
     (let g = obj st p in
      if valid' g \<and> deleter' g \<noteq> None
      then
        (let st1 = st\<lparr>calls := calls st @ [(p, deleter' g, value' g)]\<rparr> in
         case nest (releaser E (the (deleter' g)) p st1) st1 of
           Inl e \<Rightarrow> Inl e
         | Inr st2 \<Rightarrow>
             if live st2 p then Inr (store p ((obj st2 p)\<lparr>valid' := False\<rparr>) st2)
             else Inl Lifetime)
      else Inr st)"

text \<open>
  The constructor \<open>unique_resource(U&& res, deleter_type d)\<close>, lines 37-42, building
  the guard at address \<open>p\<close>.
\<close>

definition construct ::
  "addr \<Rightarrow> 'a \<Rightarrow> 'd deleter_type \<Rightarrow> ('a, 'd) state \<Rightarrow> error + ('a, 'd) state" where
  "construct p res d st =
     (if d = None then Inl Terminate
      else Inr (store p \<lparr>value' = res, valid' = True, deleter' = d\<rparr> st))"

text \<open>The destructor, lines 44-47; afterwards no guard lives at \<open>p\<close>.\<close>

definition destroy ::
  "('a, 'd) nest \<Rightarrow> ('a, 'd) env \<Rightarrow> addr \<Rightarrow> ('a, 'd) state \<Rightarrow> error + ('a, 'd) state" where
  "destroy nest E p st =
     (case release nest E p st of
        Inl e \<Rightarrow> Inl e
      | Inr st' \<Rightarrow> Inr (st'\<lparr>heap := (heap st')(p := None)\<rparr>))"

text \<open>The move constructor, lines 49-54: the new guard at \<open>p\<close>, from \<open>other\<close> at \<open>q\<close>.\<close>

definition move_construct ::
  "('a, 'd) env \<Rightarrow> addr \<Rightarrow> addr \<Rightarrow> ('a, 'd) state \<Rightarrow> ('a, 'd) state" where
  "move_construct E p q st =
     (let other = obj st q in
      store p \<lparr>value' = value' other, valid' = valid' other, deleter' = deleter' other\<rparr>
        (store q (other\<lparr>value' := moved_from E (value' other), valid' := False\<rparr>) st))"

text \<open>
  Move assignment, lines 56-66: \<open>*this\<close> at \<open>p\<close>, \<open>other\<close> at \<open>q\<close>. Only the body is
  embedded. (The \<open>noexcept\<close> specifier names \<open>std::is_nothrow_move_assign_v\<close>,
  which \<open><type_traits>\<close> does not declare: the trait is
  \<open>std::is_nothrow_move_assignable_v\<close>.) The lines after \<open>release()\<close> read \<open>other\<close>:
  if the releaser ended it, they have no object.
\<close>

definition move_assign ::
  "('a, 'd) nest \<Rightarrow> ('a, 'd) env \<Rightarrow> addr \<Rightarrow> addr \<Rightarrow> ('a, 'd) state \<Rightarrow> error + ('a, 'd) state" where
  "move_assign nest E p q st =
     (if p \<noteq> q
      then
        (case release nest E p st of
           Inl e \<Rightarrow> Inl e
         | Inr st1 \<Rightarrow>
             if live st1 q
             then
               (let other = obj st1 q; self = obj st1 p
                in Inr (store p (self\<lparr>value' := value' other, valid' := valid' other,
                                      deleter' := deleter' other\<rparr>)
                     (store q (other\<lparr>value' := moved_from E (value' other),
                                      valid' := False\<rparr>) st1)))
             else Inl Lifetime)
      else Inr st)"

text \<open>
  \<open>get()\<close>, lines 71-79, a write through the reference it returns, and
  \<open>explicit operator bool()\<close>, lines 91-94.
\<close>

definition get :: "addr \<Rightarrow> ('a, 'd) state \<Rightarrow> 'a" where
  "get p st = value' (obj st p)"

definition assign :: "addr \<Rightarrow> 'a \<Rightarrow> ('a, 'd) state \<Rightarrow> ('a, 'd) state" where
  "assign p v st = store p ((obj st p)\<lparr>value' := v\<rparr>) st"

definition operator_bool :: "addr \<Rightarrow> ('a, 'd) state \<Rightarrow> bool" where
  "operator_bool p st = valid' (obj st p)"

text \<open>\<open>reset()\<close>, lines 96-99.\<close>

definition reset ::
  "('a, 'd) nest \<Rightarrow> ('a, 'd) env \<Rightarrow> addr \<Rightarrow> ('a, 'd) state \<Rightarrow> error + ('a, 'd) state" where
  "reset nest E p st = release nest E p st"

text \<open>
  \<open>release_ownership()\<close>, lines 101-105: the returned \<open>T\<close> is move-constructed from
  the payload.
\<close>

definition release_ownership ::
  "('a, 'd) env \<Rightarrow> addr \<Rightarrow> ('a, 'd) state \<Rightarrow> 'a \<times> ('a, 'd) state" where
  "release_ownership E p st =
     (let g = obj st p in
      (value' g, store p (g\<lparr>valid' := False, value' := moved_from E (value' g)\<rparr>) st))"

text \<open>
  The member \<open>swap\<close>, lines 107-113: three calls of \<open>std::swap\<close>, one per field, each
  reading both fields and writing both, the second write through the state the first
  one left (the two guards may be one).
\<close>

definition swap_value :: "addr \<Rightarrow> addr \<Rightarrow> ('a, 'd) state \<Rightarrow> ('a, 'd) state" where
  "swap_value p q st =
     (let a = value' (obj st p); b = value' (obj st q);
          st1 = store p ((obj st p)\<lparr>value' := b\<rparr>) st
      in store q ((obj st1 q)\<lparr>value' := a\<rparr>) st1)"

definition swap_valid :: "addr \<Rightarrow> addr \<Rightarrow> ('a, 'd) state \<Rightarrow> ('a, 'd) state" where
  "swap_valid p q st =
     (let a = valid' (obj st p); b = valid' (obj st q);
          st1 = store p ((obj st p)\<lparr>valid' := b\<rparr>) st
      in store q ((obj st1 q)\<lparr>valid' := a\<rparr>) st1)"

definition swap_deleter :: "addr \<Rightarrow> addr \<Rightarrow> ('a, 'd) state \<Rightarrow> ('a, 'd) state" where
  "swap_deleter p q st =
     (let a = deleter' (obj st p); b = deleter' (obj st q);
          st1 = store p ((obj st p)\<lparr>deleter' := b\<rparr>) st
      in store q ((obj st1 q)\<lparr>deleter' := a\<rparr>) st1)"

definition swap :: "addr \<Rightarrow> addr \<Rightarrow> ('a, 'd) state \<Rightarrow> ('a, 'd) state" where
  "swap p q st = swap_deleter p q (swap_valid p q (swap_value p q st))"

text \<open>The free function \<open>safe::swap\<close>, lines 137-141.\<close>

definition safe_swap :: "addr \<Rightarrow> addr \<Rightarrow> ('a, 'd) state \<Rightarrow> ('a, 'd) state" where
  "safe_swap a b st = swap a b st"

section \<open>Programs over guards\<close>

text \<open>
  One call of a program, and a list of them; \<open>run_with\<close> stops at the first call that
  ends the process or has no behaviour.
\<close>

fun exec ::
  "('a, 'd) nest \<Rightarrow> ('a, 'd) env \<Rightarrow> ('a, 'd) op \<Rightarrow> ('a, 'd) state \<Rightarrow> error + ('a, 'd) state" where
  "exec nest E (Construct p res d) st =
     (if live st p then Inl Lifetime else construct p res d st)"
| "exec nest E (MoveConstruct p q) st =
     (if live st p \<or> \<not> live st q then Inl Lifetime else Inr (move_construct E p q st))"
| "exec nest E (MoveAssign p q) st =
     (if live st p \<and> live st q then move_assign nest E p q st else Inl Lifetime)"
| "exec nest E (Get p) st = (if live st p then Inr st else Inl Lifetime)"
| "exec nest E (Assign p v) st = (if live st p then Inr (assign p v st) else Inl Lifetime)"
| "exec nest E (OperatorBool p) st = (if live st p then Inr st else Inl Lifetime)"
| "exec nest E (Reset p) st = (if live st p then reset nest E p st else Inl Lifetime)"
| "exec nest E (ReleaseOwnership p) st =
     (if live st p then Inr (snd (release_ownership E p st)) else Inl Lifetime)"
| "exec nest E (Swap p q) st =
     (if live st p \<and> live st q then Inr (swap p q st) else Inl Lifetime)"
| "exec nest E (SafeSwap p q) st =
     (if live st p \<and> live st q then Inr (safe_swap p q st) else Inl Lifetime)"
| "exec nest E (Destroy p) st = (if live st p then destroy nest E p st else Inl Lifetime)"

fun run_with ::
  "('a, 'd) nest \<Rightarrow> ('a, 'd) env \<Rightarrow> ('a, 'd) op list \<Rightarrow> ('a, 'd) state \<Rightarrow> error + ('a, 'd) state" where
  "run_with nest E [] st = Inr st"
| "run_with nest E (c # cs) st =
     (case exec nest E c st of Inl e \<Rightarrow> Inl e | Inr st' \<Rightarrow> run_with nest E cs st')"

text \<open>
  A releaser may call \<open>reset()\<close> on the guard that is calling it, and so on without
  end. \<open>run n\<close> runs a program whose releasers nest at most \<open>n\<close> deep: at depth \<open>0\<close> a
  releaser that makes no call on a guard returns, and any other is out of fuel.
\<close>

definition no_nest :: "('a, 'd) nest" where
  "no_nest cs st = (if cs = [] then Inr st else Inl OutOfFuel)"

primrec run ::
  "nat \<Rightarrow> ('a, 'd) env \<Rightarrow> ('a, 'd) op list \<Rightarrow> ('a, 'd) state \<Rightarrow> error + ('a, 'd) state" where
  "run 0 E cs st = run_with no_nest E cs st"
| "run (Suc n) E cs st = run_with (run n E) E cs st"

text \<open>The calls the guard at \<open>p\<close> made.\<close>

definition calls_by :: "addr \<Rightarrow> ('a, 'd) state \<Rightarrow> (addr \<times> 'd deleter_type \<times> 'a) list" where
  "calls_by p st = filter (\<lambda>c. fst c = p) (calls st)"

text \<open>The invariant of the constructor's check: no live guard holds a null releaser.\<close>

definition nonnull :: "('a, 'd) state \<Rightarrow> bool" where
  "nonnull st = (\<forall>p g. heap st p = Some g \<longrightarrow> deleter' g \<noteq> None)"

text \<open>No call in the trace went through a null pointer.\<close>

definition null_free :: "('a, 'd) state \<Rightarrow> bool" where
  "null_free st = (None \<notin> (\<lambda>c. fst (snd c)) ` set (calls st))"

text \<open>The trace has grown from \<open>xs\<close>.\<close>

definition grown_from :: "(addr \<times> 'd deleter_type \<times> 'a) list \<Rightarrow> ('a, 'd) state \<Rightarrow> bool" where
  "grown_from xs st = (\<exists>ys. calls st = xs @ ys)"

text \<open>Nested runs keep what holds of a state.\<close>

definition preserves :: "(('a, 'd) state \<Rightarrow> bool) \<Rightarrow> ('a, 'd) nest \<Rightarrow> bool" where
  "preserves I nest = (\<forall>cs s s'. I s \<longrightarrow> nest cs s = Inr s' \<longrightarrow> I s')"

text \<open>
  A call a releaser makes that is no call on a guard: a write through the \<open>T&\<close> it was
  given, the payload of the guard at \<open>p\<close>.
\<close>

fun payload_write :: "addr \<Rightarrow> ('a, 'd) op \<Rightarrow> bool" where
  "payload_write p (Assign q v) = (q = p)"
| "payload_write p (Construct q res d) = False"
| "payload_write p (MoveConstruct q' q) = False"
| "payload_write p (MoveAssign q' q) = False"
| "payload_write p (Get q) = False"
| "payload_write p (OperatorBool q) = False"
| "payload_write p (Reset q) = False"
| "payload_write p (ReleaseOwnership q) = False"
| "payload_write p (Swap q' q) = False"
| "payload_write p (SafeSwap q' q) = False"
| "payload_write p (Destroy q) = False"

text \<open>
  \<open>make_unique_resource\<close>, lines 116-135, has no embedding: its adapter is a lambda
  with an empty capture list (it must be one, to convert to \<open>deleter_fn\<close>) whose body
  names \<open>deleter\<close>, a parameter of the enclosing function. A function pointer is a
  \<open>'d\<close> here, and what it does is fixed by \<open>releaser E\<close>: it cannot depend on a
  callable received at run time.
\<close>

text \<open>
  Two instances for evaluation, of integer handles and function pointers numbered by
  \<open>nat\<close>. In the first a releaser overwrites the handle it is given with \<open>-1\<close>. In
  the second a releaser calls \<open>reset()\<close> on the guard that called it, the first time
  it runs for that guard:
  \<^verbatim>\<open>void rel(int&) noexcept { if (first) { first = false; G->reset(); } }\<close>
\<close>

definition handle_env :: "(int, nat) env" where
  "handle_env = \<lparr>releaser = (\<lambda>d p st. [Assign p (- 1)]), moved_from = (\<lambda>v. v)\<rparr>"

definition reentrant_env :: "(int, nat) env" where
  "reentrant_env =
     \<lparr>releaser = (\<lambda>d p st. if length (calls_by p st) < 2 then [Reset p] else []),
      moved_from = (\<lambda>v. v)\<rparr>"

section \<open>Basic facts\<close>

lemmas run_simps = live_def init_def construct_def store_def obj_def release_def reset_def
  destroy_def move_construct_def move_assign_def release_ownership_def swap_def swap_value_def
  swap_valid_def swap_deleter_def safe_swap_def get_def assign_def operator_bool_def Let_def
  no_nest_def calls_by_def handle_env_def reentrant_env_def

lemma obj_store [simp]: "obj (store p g st) q = (if q = p then g else obj st q)"
  by (simp add: obj_def store_def)

lemma heap_store [simp]: "heap (store p g st) = (heap st)(p := Some g)"
  by (simp add: store_def)

lemma calls_store [simp]: "calls (store p g st) = calls st"
  by (simp add: store_def)

lemma obj_Some: "heap st p = Some g \<Longrightarrow> obj st p = g"
  by (simp add: obj_def)

lemma overwrite_fields:
  fixes a b :: "('a, 'd) unique_resource"
  shows "a\<lparr>value' := value' b, valid' := valid' b, deleter' := deleter' b\<rparr> = b"
  by (cases a, cases b) simp

lemma swap_exchanges:
  assumes "heap st p = Some a" "heap st q = Some b"
  shows "swap p q st = st\<lparr>heap := (heap st)(p := Some b, q := Some a)\<rparr>"
proof (cases "p = q")
  case True
  with assms have "a = b" by simp
  with True assms show ?thesis
    by (simp add: swap_def swap_value_def swap_valid_def swap_deleter_def store_def obj_def
        Let_def fun_upd_idem)
next
  case False
  with assms show ?thesis
    by (simp add: swap_def swap_value_def swap_valid_def swap_deleter_def store_def obj_def
        Let_def fun_upd_twist overwrite_fields)
qed

lemma calls_swap [simp]: "calls (swap p q st) = calls st"
  by (simp add: swap_def swap_value_def swap_valid_def swap_deleter_def Let_def)

lemma calls_move_construct [simp]: "calls (move_construct E p q st) = calls st"
  by (simp add: move_construct_def Let_def)

lemma calls_release_ownership [simp]: "calls (snd (release_ownership E p st)) = calls st"
  by (simp add: release_ownership_def Let_def)

lemma calls_assign [simp]: "calls (assign p v st) = calls st"
  by (simp add: assign_def)

subsection \<open>Release of a guard that is invalid\<close>

lemma release_invalid: "\<not> valid' (obj st p) \<Longrightarrow> release nest E p st = Inr st"
  by (simp add: release_def Let_def)

lemma destroy_invalid:
  "\<not> valid' (obj st p) \<Longrightarrow> destroy nest E p st = Inr (st\<lparr>heap := (heap st)(p := None)\<rparr>)"
  by (simp add: destroy_def release_invalid)

lemma run_Nil [simp]: "run n E [] st = Inr st"
  by (cases n) simp_all

subsection \<open>Invariants of a run\<close>

lemma preserves_no_nest: "preserves I no_nest"
  by (auto simp: preserves_def no_nest_def split: if_splits)

lemma preserves_run_with:
  assumes "\<And>c s s'. I s \<Longrightarrow> exec nest E c s = Inr s' \<Longrightarrow> I s'"
  shows "preserves I (run_with nest E)"
  unfolding preserves_def
proof (intro allI impI)
  fix cs s s'
  assume "I s" and "run_with nest E cs s = Inr s'"
  then show "I s'"
  proof (induction cs arbitrary: s)
    case Nil
    then show ?case by simp
  next
    case (Cons c cs)
    then show ?case by (auto split: sum.splits dest: assms)
  qed
qed

lemma preserves_run:
  assumes "\<And>nest c s s'. preserves I nest \<Longrightarrow> I s \<Longrightarrow> exec nest E c s = Inr s' \<Longrightarrow> I s'"
  shows "preserves I (run n E)"
proof (induction n)
  case 0
  have "preserves I (run_with no_nest E)"
    by (rule preserves_run_with) (rule assms [OF preserves_no_nest])
  then show ?case by (simp add: preserves_def)
next
  case (Suc n)
  have "preserves I (run_with (run n E) E)"
    by (rule preserves_run_with) (rule assms [OF Suc])
  then show ?case by (simp add: preserves_def)
qed

lemma preservesD: "preserves I nest \<Longrightarrow> I s \<Longrightarrow> nest cs s = Inr s' \<Longrightarrow> I s'"
  by (auto simp: preserves_def)

subsection \<open>No live guard holds a null releaser\<close>

lemma nonnull_init: "nonnull init"
  by (simp add: nonnull_def init_def)

lemma nonnull_store:
  "nonnull st \<Longrightarrow> deleter' g \<noteq> None \<Longrightarrow> nonnull (store p g st)"
  by (simp add: nonnull_def)

lemma nonnull_calls_update [simp]: "nonnull (st\<lparr>calls := cs\<rparr>) = nonnull st"
  by (simp add: nonnull_def)

lemma nonnull_obj: "nonnull st \<Longrightarrow> live st p \<Longrightarrow> deleter' (obj st p) \<noteq> None"
  by (auto simp: nonnull_def live_def obj_def)

lemma nonnull_release:
  assumes "preserves nonnull nest" and "nonnull st" and "release nest E p st = Inr st'"
  shows "nonnull st'"
proof (cases "valid' (obj st p) \<and> deleter' (obj st p) \<noteq> None")
  case False
  with assms(2,3) show ?thesis by (auto simp: release_def Let_def)
next
  case True
  let ?st1 = "st\<lparr>calls := calls st @ [(p, deleter' (obj st p), value' (obj st p))]\<rparr>"
  from True assms(3) obtain st2 where
    n: "nest (releaser E (the (deleter' (obj st p))) p ?st1) ?st1 = Inr st2" and
    l: "live st2 p" and s: "st' = store p ((obj st2 p)\<lparr>valid' := False\<rparr>) st2"
    by (auto simp: release_def Let_def split: sum.splits if_splits)
  from assms(2) have "nonnull ?st1" by simp
  from preservesD [OF assms(1) this n] have "nonnull st2" .
  with l s show ?thesis by (simp add: nonnull_store nonnull_obj)
qed

lemma live_release:
  "release nest E p st = Inr st' \<Longrightarrow> live st p \<Longrightarrow> live st' p"
  by (auto simp: release_def Let_def live_def split: sum.splits if_splits)

lemma nonnull_destroy:
  "preserves nonnull nest \<Longrightarrow> nonnull st \<Longrightarrow> destroy nest E p st = Inr st' \<Longrightarrow> nonnull st'"
  by (auto simp: destroy_def split: sum.splits dest!: nonnull_release) (simp add: nonnull_def)

lemma nonnull_move_construct:
  "nonnull st \<Longrightarrow> live st q \<Longrightarrow> nonnull (move_construct E p q st)"
  by (simp add: move_construct_def Let_def nonnull_store nonnull_obj)

lemma nonnull_move_assign:
  assumes "preserves nonnull nest" and "nonnull st" and "move_assign nest E p q st = Inr st'"
  shows "nonnull st'"
proof (cases "p = q")
  case True
  with assms(2,3) show ?thesis by (simp add: move_assign_def)
next
  case False
  with assms(3) obtain st1 where r: "release nest E p st = Inr st1" and l: "live st1 q"
    and s: "st' = store p ((obj st1 p)\<lparr>value' := value' (obj st1 q), valid' := valid' (obj st1 q),
                                 deleter' := deleter' (obj st1 q)\<rparr>)
                 (store q ((obj st1 q)\<lparr>value' := moved_from E (value' (obj st1 q)),
                                 valid' := False\<rparr>) st1)"
    by (auto simp: move_assign_def Let_def split: sum.splits if_splits)
  from nonnull_release [OF assms(1,2) r] have "nonnull st1" .
  with l s show ?thesis by (simp add: nonnull_store nonnull_obj)
qed

lemma nonnull_release_ownership:
  "nonnull st \<Longrightarrow> live st p \<Longrightarrow> nonnull (snd (release_ownership E p st))"
  by (simp add: release_ownership_def Let_def nonnull_store nonnull_obj)

lemma nonnull_assign: "nonnull st \<Longrightarrow> live st p \<Longrightarrow> nonnull (assign p v st)"
  by (simp add: assign_def nonnull_store nonnull_obj)

lemma nonnull_swap:
  "nonnull st \<Longrightarrow> live st p \<Longrightarrow> live st q \<Longrightarrow> nonnull (swap p q st)"
  by (auto simp: live_def swap_exchanges nonnull_def split: if_splits)

lemma nonnull_exec:
  "preserves nonnull nest \<Longrightarrow> nonnull st \<Longrightarrow> exec nest E c st = Inr st' \<Longrightarrow> nonnull st'"
  by (cases c)
    (auto simp: construct_def reset_def safe_swap_def
          intro: nonnull_store nonnull_release nonnull_destroy nonnull_move_construct
            nonnull_move_assign nonnull_release_ownership nonnull_swap nonnull_assign
          split: if_splits)

lemma nonnull_run: "nonnull st \<Longrightarrow> run n E cs st = Inr st' \<Longrightarrow> nonnull st'"
  using preserves_run [of nonnull E n, OF nonnull_exec] by (rule preservesD)

subsection \<open>No call goes through a null pointer; the trace only grows\<close>

text \<open>Both are properties of the trace that adding a call through a set pointer keeps.\<close>

lemma null_free_init: "null_free init"
  by (simp add: null_free_def init_def)

lemma trace_release:
  assumes "preserves I nest" and "I st" and "release nest E p st = Inr st'"
    and same: "\<And>s s'. calls s' = calls s \<Longrightarrow> I s \<Longrightarrow> I s'"
    and add: "\<And>s a d v. I s \<Longrightarrow> I (s\<lparr>calls := calls s @ [(a, Some d, v)]\<rparr>)"
  shows "I st'"
proof (cases "valid' (obj st p) \<and> deleter' (obj st p) \<noteq> None")
  case False
  with assms(2,3) show ?thesis by (auto simp: release_def Let_def)
next
  case True
  then obtain d where d: "deleter' (obj st p) = Some d" by auto
  let ?st1 = "st\<lparr>calls := calls st @ [(p, Some d, value' (obj st p))]\<rparr>"
  from True d assms(3) obtain st2 where
    n: "nest (releaser E d p ?st1) ?st1 = Inr st2" and
    s: "st' = store p ((obj st2 p)\<lparr>valid' := False\<rparr>) st2"
    by (auto simp: release_def Let_def split: sum.splits if_splits)
  from add [OF assms(2)] have "I ?st1" .
  from preservesD [OF assms(1) this n] have "I st2" .
  with s show ?thesis by (auto intro: same [rotated])
qed

lemma trace_exec:
  assumes "preserves I nest" and "I st" and "exec nest E c st = Inr st'"
    and same: "\<And>s s'. calls s' = calls s \<Longrightarrow> I s \<Longrightarrow> I s'"
    and add: "\<And>s a d v. I s \<Longrightarrow> I (s\<lparr>calls := calls s @ [(a, Some d, v)]\<rparr>)"
  shows "I st'"
proof -
  have rel: "\<And>p s s'. I s \<Longrightarrow> release nest E p s = Inr s' \<Longrightarrow> I s'"
    by (rule trace_release [OF assms(1) _ _ same add])
  show ?thesis
  proof (cases c)
    case (MoveAssign p q)
    with assms(2,3) show ?thesis
      by (auto simp: move_assign_def Let_def split: if_splits sum.splits
          dest!: rel [rotated] intro: same [rotated])
  next
    case (Destroy p)
    with assms(2,3) show ?thesis
      by (auto simp: destroy_def split: if_splits sum.splits
          dest!: rel [rotated] intro: same [rotated])
  next
    case (Reset p)
    with assms(2,3) show ?thesis
      by (auto simp: reset_def split: if_splits dest: rel)
  qed (use assms(2,3) in \<open>auto simp: construct_def safe_swap_def split: if_splits
        intro: same [rotated]\<close>)
qed

lemma null_free_run: "null_free st \<Longrightarrow> run n E cs st = Inr st' \<Longrightarrow> null_free st'"
proof -
  have "preserves null_free (run n E)"
    by (rule preserves_run, erule (2) trace_exec) (auto simp: null_free_def)
  then show "null_free st \<Longrightarrow> run n E cs st = Inr st' \<Longrightarrow> null_free st'"
    by (rule preservesD)
qed

lemma grown_from_run:
  "grown_from xs st \<Longrightarrow> run n E cs st = Inr st' \<Longrightarrow> grown_from xs st'"
proof -
  have "preserves (grown_from xs) (run n E)"
    by (rule preserves_run, erule (2) trace_exec) (auto simp: grown_from_def)
  then show "grown_from xs st \<Longrightarrow> run n E cs st = Inr st' \<Longrightarrow> grown_from xs st'"
    by (rule preservesD)
qed

subsection \<open>A releaser that only writes its payload\<close>

lemma payload_writes_run_with:
  assumes "list_all (payload_write p) cs" and "heap st p = Some g"
  shows "\<exists>st' v. run_with nest E cs st = Inr st' \<and> calls st' = calls st \<and>
           heap st' p = Some (g\<lparr>value' := v\<rparr>)"
  using assms
proof (induction cs arbitrary: st g)
  case Nil
  have "g = g\<lparr>value' := value' g\<rparr>" by simp
  with Nil show ?case by (metis run_with.simps(1))
next
  case (Cons c cs)
  from Cons.prems(1) obtain v where c: "c = Assign p v"
    by (cases c) simp_all
  let ?st1 = "assign p v st"
  from Cons.prems(2) have e: "exec nest E c st = Inr ?st1"
    by (simp add: c live_def)
  from Cons.prems(2) have h: "heap ?st1 p = Some (g\<lparr>value' := v\<rparr>)"
    by (simp add: assign_def obj_Some)
  from Cons.prems(1) have "list_all (payload_write p) cs" by simp
  from Cons.IH [OF this h] obtain st' w where
    "run_with nest E cs ?st1 = Inr st'" "calls st' = calls ?st1"
    "heap st' p = Some (g\<lparr>value' := v, value' := w\<rparr>)"
    by blast
  with e show ?case by auto
qed

lemma payload_writes_run:
  assumes "list_all (payload_write p) cs" and "heap st p = Some g"
  shows "\<exists>st' v. run m E cs st = Inr st' \<and> calls st' = calls st \<and>
           heap st' p = Some (g\<lparr>value' := v\<rparr>)"
  using payload_writes_run_with [OF assms] by (cases m) simp_all

lemma destroy_valid_runs_releaser:
  assumes "heap st p = Some g" and "valid' g" and "deleter' g \<noteq> None"
    and "destroy (run m E) E p st = Inr st'"
  shows "\<exists>ys. calls st' = calls st @ (p, deleter' g, value' g) # ys"
proof -
  let ?st1 = "st\<lparr>calls := calls st @ [(p, deleter' g, value' g)]\<rparr>"
  from assms obtain st2 where
    n: "run m E (releaser E (the (deleter' g)) p ?st1) ?st1 = Inr st2" and
    c: "calls st' = calls st2"
    by (auto simp: destroy_def release_def Let_def obj_Some split: sum.splits if_splits)
  have "grown_from (calls ?st1) ?st1" by (simp add: grown_from_def)
  from grown_from_run [OF this n] c show ?thesis by (auto simp: grown_from_def)
qed

lemma destroy_valid_payload_writer:
  assumes "heap st p = Some g" and "valid' g" and "deleter' g \<noteq> None"
    and "list_all (payload_write p)
           (releaser E (the (deleter' g)) p (st\<lparr>calls := calls st @ [(p, deleter' g, value' g)]\<rparr>))"
  shows "map_sum id calls (destroy (run m E) E p st) = Inr (calls st @ [(p, deleter' g, value' g)])"
proof -
  let ?st1 = "st\<lparr>calls := calls st @ [(p, deleter' g, value' g)]\<rparr>"
  from assms(1) have "heap ?st1 p = Some g" by simp
  from payload_writes_run [OF assms(4) this, of m E] obtain st2 v where
    "run m E (releaser E (the (deleter' g)) p ?st1) ?st1 = Inr st2" "calls st2 = calls ?st1"
    "heap st2 p = Some (g\<lparr>value' := v\<rparr>)"
    by blast
  with assms(1-3) show ?thesis
    by (simp add: destroy_def release_def Let_def obj_Some live_def)
qed

lemma destroy_invalid_calls:
  "heap st p = Some g \<Longrightarrow> \<not> valid' g \<Longrightarrow> map_sum id calls (destroy nest E p st) = Inr (calls st)"
  by (simp add: destroy_invalid obj_Some)

section \<open>Release and re-entry\<close>

text \<open>
  C1. The releaser is to be called at most once for the resource a guard holds, and
  exactly once at the destruction of a valid guard. \<open>release()\<close> does not keep this:
  it calls the releaser first and clears \<open>valid_\<close> only when the releaser has
  returned, so a \<open>reset()\<close> made meanwhile finds the guard valid. Here the guard of
  handle 42 has a releaser that calls \<open>reset()\<close> on it the first time it runs; the
  guard is constructed and destroyed, and the releaser is called twice on 42.
\<close>

theorem reentrant_releaser_called_twice_at_destruction:
  "map_sum id calls (run 1 reentrant_env [Construct 0 42 (Some 1), Destroy 0] init) =
     Inr [(0, Some 1, 42), (0, Some 1, 42)]"
  by (simp add: run_simps)

section \<open>Move construction\<close>

text \<open>
  C2. Let \<open>G1\<close>, at address \<open>q\<close>, be valid, and let \<open>G2\<close> be move-constructed from it
  at a fresh address \<open>p\<close>. Then \<open>G1\<close> is invalid (its conversion to \<open>bool\<close> is
  false), \<open>G2\<close> is valid and holds the value and the releaser \<open>G1\<close> held, the move
  calls no releaser, and destroying \<open>G1\<close> afterwards returns and calls none either.
\<close>

theorem move_construct_transfers:
  assumes "heap st q = Some g1" and "valid' g1" and "heap st p = None"
  shows "\<not> operator_bool q (move_construct E p q st) \<and>
         operator_bool p (move_construct E p q st) \<and>
         get p (move_construct E p q st) = value' g1 \<and>
         deleter' (obj (move_construct E p q st) p) = deleter' g1 \<and>
         calls (move_construct E p q st) = calls st \<and>
         map_sum id calls (destroy nest E q (move_construct E p q st)) = Inr (calls st)"
proof -
  from assms(1,3) have "p \<noteq> q" by auto
  with assms(1,2) show ?thesis
    by (simp add: move_construct_def Let_def operator_bool_def get_def obj_Some
        destroy_invalid)
qed

text \<open>
  Guard A of handle 7 is moved into guard B: A is invalid, B holds 7. Destroying A and
  then B leaves one call in the trace, B's, on 7.
\<close>

theorem move_construct_transfers_witness:
  "(case run 1 handle_env [Construct 0 7 (Some 1), MoveConstruct 1 0] init of
      Inl e \<Rightarrow> False
    | Inr st \<Rightarrow>
        \<not> operator_bool 0 st \<and> operator_bool 1 st \<and> get 1 st = 7 \<and>
        deleter' (obj st 1) = Some 1 \<and> calls st = [] \<and>
        map_sum id calls (destroy (run 0 handle_env) handle_env 0 st) = Inr []) \<and>
   map_sum id calls
     (run 1 handle_env [Construct 0 7 (Some 1), MoveConstruct 1 0, Destroy 0, Destroy 1] init) =
     Inr [(1, Some 1, 7)]"
proof -
  let ?g = "\<lparr>value' = 7::int, valid' = True, deleter' = Some (1::nat)\<rparr>"
  let ?st = "store 0 ?g init"
  have "heap ?st 0 = Some ?g" "valid' ?g" "heap ?st 1 = None"
    by (simp_all add: init_def)
  from move_construct_transfers [OF this, of handle_env "run 0 handle_env"] show ?thesis
    by (simp add: run_simps)
qed

section \<open>Move assignment\<close>

text \<open>
  C3. The move assignment \<open>G2 = std::move(G1)\<close> into a valid \<open>G2\<close> is to call the
  releaser \<open>G2\<close> held exactly once, on the value \<open>G2\<close> held, before \<open>G2\<close> takes what
  \<open>G1\<close> has. It goes through the same \<open>release()\<close>. Here \<open>G2\<close>, the guard of handle 9
  with releaser 2, is assigned the guard of handle 7; its releaser calls \<open>reset()\<close> on
  it the first time it runs, and is called twice on 9 before \<open>G2\<close> takes 7.
\<close>

theorem reentrant_releaser_called_twice_at_move_assign:
  "map_sum id calls
     (run 1 reentrant_env [Construct 0 7 (Some 1), Construct 1 9 (Some 2), MoveAssign 1 0]
        init) = Inr [(1, Some 2, 9), (1, Some 2, 9)] \<and>
   map_sum id (get 1)
     (run 1 reentrant_env [Construct 0 7 (Some 1), Construct 1 9 (Some 2), MoveAssign 1 0]
        init) = Inr 7"
  by (simp add: run_simps)

section \<open>Construction\<close>

text \<open>
  C4. Constructing a guard with a null releaser ends the process: the result is
  \<open>Terminate\<close>, no state comes back. Constructing it with a non-null releaser
  succeeds: the new guard holds the value, is valid and records the releaser; no
  releaser is called and no other guard changes.
\<close>

theorem construct_null_terminates_nonnull_owns:
  "construct p res None st = Inl Terminate \<and>
   construct p res (Some d) st =
     Inr (st\<lparr>heap := (heap st)(p := Some \<lparr>value' = res, valid' = True, deleter' = Some d\<rparr>)\<rparr>) \<and>
   (case construct p res (Some d) st of
      Inl e \<Rightarrow> False
    | Inr st' \<Rightarrow> get p st' = res \<and> operator_bool p st' \<and> deleter' (obj st' p) = Some d \<and>
        calls st' = calls st)"
  by (simp add: construct_def store_def get_def operator_bool_def obj_def)

section \<open>Giving the value back\<close>

text \<open>
  C6. For every guard, \<open>release_ownership()\<close> returns the value the guard holds and
  leaves the guard invalid without calling a releaser; destroying the guard afterwards
  returns and calls no releaser.
\<close>

theorem release_ownership_disarms:
  assumes "heap st p = Some g"
  shows "fst (release_ownership E p st) = value' g \<and>
         \<not> operator_bool p (snd (release_ownership E p st)) \<and>
         calls (snd (release_ownership E p st)) = calls st \<and>
         map_sum id calls (destroy nest E p (snd (release_ownership E p st))) = Inr (calls st)"
  using assms
  by (simp add: release_ownership_def Let_def operator_bool_def obj_Some destroy_invalid)

theorem release_ownership_disarms_witness:
  "fst (release_ownership handle_env 0
     (store 0 \<lparr>value' = 5, valid' = True, deleter' = Some 1\<rparr> init)) = 5 \<and>
   map_sum id calls
     (run 1 handle_env [Construct 0 5 (Some 1), ReleaseOwnership 0, Destroy 0] init) = Inr []"
proof -
  let ?g = "\<lparr>value' = 5::int, valid' = True, deleter' = Some (1::nat)\<rparr>"
  have "heap (store 0 ?g init) 0 = Some ?g"
    by simp
  from release_ownership_disarms [OF this, of handle_env "run 0 handle_env"] show ?thesis
    by (simp add: run_simps)
qed

section \<open>Swap\<close>

text \<open>
  C7, amended. Let \<open>a\<close>, at \<open>p\<close>, and \<open>b\<close>, at \<open>q\<close>, be guards of a program (they may
  be one guard). \<open>swap\<close>, the member and the free function alike, leaves at \<open>p\<close> the
  value, validity and releaser \<open>b\<close> had and at \<open>q\<close> those \<open>a\<close> had, changes no other
  guard and calls no releaser. Destroying either guard afterwards calls nothing if the
  guard is invalid after the swap. If it is valid after the swap, its releaser after
  the swap is not null and the destruction, when it returns, has called it on the
  value the guard holds after the swap, before any other call; and if that run of the
  releaser makes no call on a guard (it only writes the payload it was given), the
  destruction returns and this is the one call it makes.
\<close>

theorem swap_exchanges_and_destroy_releases_if_valid:
  assumes "run n E cs init = Inr st" and "heap st p = Some a" and "heap st q = Some b"
  shows "heap (swap p q st) p = Some b \<and> heap (swap p q st) q = Some a \<and>
         swap p q st = st\<lparr>heap := (heap st)(p := Some b, q := Some a)\<rparr> \<and>
         safe_swap p q st = swap p q st \<and>
         calls (swap p q st) = calls st \<and>
         (\<not> valid' b \<longrightarrow>
            map_sum id calls (destroy (run m E) E p (swap p q st)) = Inr (calls st)) \<and>
         (\<not> valid' a \<longrightarrow>
            map_sum id calls (destroy (run m E) E q (swap p q st)) = Inr (calls st)) \<and>
         (valid' b \<longrightarrow>
            deleter' b \<noteq> None \<and>
            (\<forall>st'. destroy (run m E) E p (swap p q st) = Inr st' \<longrightarrow>
               (\<exists>ys. calls st' = calls st @ (p, deleter' b, value' b) # ys)) \<and>
            (list_all (payload_write p)
               (releaser E (the (deleter' b)) p
                  ((swap p q st)\<lparr>calls := calls st @ [(p, deleter' b, value' b)]\<rparr>)) \<longrightarrow>
             map_sum id calls (destroy (run m E) E p (swap p q st)) =
               Inr (calls st @ [(p, deleter' b, value' b)]))) \<and>
         (valid' a \<longrightarrow>
            deleter' a \<noteq> None \<and>
            (\<forall>st'. destroy (run m E) E q (swap p q st) = Inr st' \<longrightarrow>
               (\<exists>ys. calls st' = calls st @ (q, deleter' a, value' a) # ys)) \<and>
            (list_all (payload_write q)
               (releaser E (the (deleter' a)) q
                  ((swap p q st)\<lparr>calls := calls st @ [(q, deleter' a, value' a)]\<rparr>)) \<longrightarrow>
             map_sum id calls (destroy (run m E) E q (swap p q st)) =
               Inr (calls st @ [(q, deleter' a, value' a)])))"
proof -
  from assms(1) have "nonnull st" by (rule nonnull_run [OF nonnull_init])
  with assms(2,3) have d: "deleter' a \<noteq> None" "deleter' b \<noteq> None"
    by (simp_all add: nonnull_def)
  have s: "swap p q st = st\<lparr>heap := (heap st)(p := Some b, q := Some a)\<rparr>"
    using assms(2,3) by (rule swap_exchanges)
  have pq: "p = q \<Longrightarrow> a = b" using assms(2,3) by simp
  have hp: "heap (swap p q st) p = Some b" using pq by (auto simp: s)
  have hq: "heap (swap p q st) q = Some a" by (simp add: s)
  have c: "calls (swap p q st) = calls st" by simp
  have 1: "\<not> valid' b \<longrightarrow>
            map_sum id calls (destroy (run m E) E p (swap p q st)) = Inr (calls st)"
    using destroy_invalid_calls [OF hp, of "run m E" E] by (simp only: c) simp
  have 2: "\<not> valid' a \<longrightarrow>
            map_sum id calls (destroy (run m E) E q (swap p q st)) = Inr (calls st)"
    using destroy_invalid_calls [OF hq, of "run m E" E] by (simp only: c) simp
  have 3: "valid' b \<longrightarrow>
            (\<forall>st'. destroy (run m E) E p (swap p q st) = Inr st' \<longrightarrow>
               (\<exists>ys. calls st' = calls st @ (p, deleter' b, value' b) # ys))"
    using destroy_valid_runs_releaser [OF hp _ d(2), of m E] by (simp only: c) blast
  have 4: "valid' a \<longrightarrow>
            (\<forall>st'. destroy (run m E) E q (swap p q st) = Inr st' \<longrightarrow>
               (\<exists>ys. calls st' = calls st @ (q, deleter' a, value' a) # ys))"
    using destroy_valid_runs_releaser [OF hq _ d(1), of m E] by (simp only: c) blast
  have 5: "valid' b \<longrightarrow>
            list_all (payload_write p)
               (releaser E (the (deleter' b)) p
                  ((swap p q st)\<lparr>calls := calls st @ [(p, deleter' b, value' b)]\<rparr>)) \<longrightarrow>
             map_sum id calls (destroy (run m E) E p (swap p q st)) =
               Inr (calls st @ [(p, deleter' b, value' b)])"
    using destroy_valid_payload_writer [OF hp _ d(2), of E m] by (simp only: c) blast
  have 6: "valid' a \<longrightarrow>
            list_all (payload_write q)
               (releaser E (the (deleter' a)) q
                  ((swap p q st)\<lparr>calls := calls st @ [(q, deleter' a, value' a)]\<rparr>)) \<longrightarrow>
             map_sum id calls (destroy (run m E) E q (swap p q st)) =
               Inr (calls st @ [(q, deleter' a, value' a)])"
    using destroy_valid_payload_writer [OF hq _ d(1), of E m] by (simp only: c) blast
  from hp hq s c d 1 2 3 4 5 6 show ?thesis
    unfolding safe_swap_def by blast
qed

text \<open>Two valid guards, of handles 7 and 9, are swapped; the first is destroyed.\<close>

theorem swap_exchanges_and_destroy_releases_if_valid_witness:
  "map_sum id (get 0)
     (run 1 handle_env [Construct 0 7 (Some 1), Construct 1 9 (Some 2), Swap 0 1] init) =
     Inr 9 \<and>
   map_sum id calls
     (run 1 handle_env [Construct 0 7 (Some 1), Construct 1 9 (Some 2), Swap 0 1, Destroy 0]
        init) = Inr [(0, Some 2, 9)]"
proof -
  let ?a = "\<lparr>value' = 7::int, valid' = True, deleter' = Some (1::nat)\<rparr>"
  let ?b = "\<lparr>value' = 9::int, valid' = True, deleter' = Some (2::nat)\<rparr>"
  let ?st = "store 1 ?b (store 0 ?a init)"
  have r: "run 1 handle_env [Construct 0 7 (Some 1), Construct 1 9 (Some 2)] init = Inr ?st"
    by (simp add: live_def init_def construct_def store_def)
  have h: "heap ?st 0 = Some ?a" "heap ?st 1 = Some ?b"
    by simp_all
  from swap_exchanges_and_destroy_releases_if_valid [OF r h, of 0] show ?thesis
    by (simp add: run_simps)
qed

text \<open>
  As first stated, C7 promised one release at the destruction of either guard,
  whatever its validity. Here the guard of handle 9 has given its value back, so it is
  invalid when it is swapped with the valid guard of handle 7. After the swap the
  first guard holds 9 and is invalid, and its destruction calls nothing: 9 is released
  zero times, not once.
\<close>

theorem swap_then_destroy_invalid_releases_nothing:
  "map_sum id (get 0)
     (run 1 handle_env
        [Construct 0 7 (Some 1), Construct 1 9 (Some 2), ReleaseOwnership 1, Swap 0 1]
        init) = Inr 9 \<and>
   map_sum id (operator_bool 0)
     (run 1 handle_env
        [Construct 0 7 (Some 1), Construct 1 9 (Some 2), ReleaseOwnership 1, Swap 0 1]
        init) = Inr False \<and>
   map_sum id calls
     (run 1 handle_env
        [Construct 0 7 (Some 1), Construct 1 9 (Some 2), ReleaseOwnership 1, Swap 0 1,
         Destroy 0]
        init) = Inr []"
  by (simp add: run_simps)

section \<open>Move assignment to itself\<close>

text \<open>
  C8. The self-move-assignment \<open>G = std::move(G)\<close> changes nothing: it returns, the
  state after it is the state before it, so the guard's validity, value and releaser
  are the same and no releaser has been called.
\<close>

theorem self_move_assign_noop:
  "move_assign nest E p p st = Inr st \<and>
   map_sum id (operator_bool p) (move_assign nest E p p st) = Inr (operator_bool p st) \<and>
   map_sum id (get p) (move_assign nest E p p st) = Inr (get p st) \<and>
   map_sum id (\<lambda>s. deleter' (obj s p)) (move_assign nest E p p st) = Inr (deleter' (obj st p)) \<and>
   map_sum id calls (move_assign nest E p p st) = Inr (calls st)"
  by (simp add: move_assign_def)

section \<open>The releaser is never null\<close>

text \<open>
  C9. In every state a program reaches, by whatever constructions, move
  constructions, move assignments, swaps, resets, \<open>release_ownership\<close> calls, writes
  and destructions, made by the program or by its releasers, every live guard, valid
  or not (so a moved-from or reset guard too), holds a non-null releaser, and no call
  in the trace went through a null pointer.
\<close>

theorem releaser_never_null:
  assumes "run n E cs init = Inr st"
  shows "(\<forall>p g. heap st p = Some g \<longrightarrow> deleter' g \<noteq> None) \<and>
         None \<notin> (\<lambda>c. fst (snd c)) ` set (calls st)"
proof -
  from assms have "nonnull st" by (rule nonnull_run [OF nonnull_init])
  moreover from assms have "null_free st" by (rule null_free_run [OF null_free_init])
  ultimately show ?thesis by (simp add: nonnull_def null_free_def)
qed

theorem releaser_never_null_witness:
  "case run 1 handle_env
      [Construct 0 7 (Some 1), MoveConstruct 1 0, Construct 2 9 (Some 2), Reset 2,
       Swap 1 2, MoveAssign 0 2, ReleaseOwnership 1] init of
     Inl e \<Rightarrow> False
   | Inr st \<Rightarrow>
       deleter' (obj st 0) = Some 1 \<and> deleter' (obj st 1) = Some 2 \<and>
       deleter' (obj st 2) = Some 1 \<and>
       \<not> valid' (obj st 1) \<and> \<not> valid' (obj st 2) \<and> valid' (obj st 0) \<and>
       calls st = [(2, Some 2, 9)]"
proof -
  let ?cs = "[Construct 0 7 (Some 1), MoveConstruct 1 0, Construct 2 9 (Some 2), Reset 2,
       Swap 1 2, MoveAssign 0 2, ReleaseOwnership 1] :: (int, nat) op list"
  obtain st where r: "run 1 handle_env ?cs init = Inr st"
    by (simp add: run_simps)
  have "None \<notin> (\<lambda>c. fst (snd c)) ` set (calls st)"
    using releaser_never_null [OF r] by simp
  with r show ?thesis
    by (auto simp: run_simps)
qed

section \<open>Giving back the value of an invalid guard\<close>

text \<open>
  C10. For a guard that is already invalid, \<open>release_ownership()\<close> is a step that
  succeeds, calls no releaser, leaves the guard invalid and returns the payload the
  guard holds (what \<open>get()\<close> shows).
\<close>

theorem release_ownership_of_invalid:
  assumes "heap st p = Some g" and "\<not> valid' g"
  shows "exec nest E (ReleaseOwnership p) st = Inr (snd (release_ownership E p st)) \<and>
         fst (release_ownership E p st) = value' g \<and>
         fst (release_ownership E p st) = get p st \<and>
         calls (snd (release_ownership E p st)) = calls st \<and>
         \<not> operator_bool p (snd (release_ownership E p st))"
  using assms
  by (simp add: release_ownership_def Let_def operator_bool_def get_def obj_Some live_def)

text \<open>A guard of handle 5 that was reset (its releaser left \<open>-1\<close> in it) gives \<open>-1\<close> back.\<close>

theorem release_ownership_of_invalid_witness:
  "fst (release_ownership handle_env 0
     (store 0 \<lparr>value' = - 1, valid' = False, deleter' = Some 1\<rparr>
        (init\<lparr>calls := [(0, Some 1, 5)]\<rparr>))) = - 1 \<and>
   run 1 handle_env [Construct 0 5 (Some 1), Reset 0] init =
     Inr (store 0 \<lparr>value' = - 1, valid' = False, deleter' = Some 1\<rparr>
        (init\<lparr>calls := [(0, Some 1, 5)]\<rparr>)) \<and>
   map_sum id calls
     (run 1 handle_env [Construct 0 5 (Some 1), Reset 0, ReleaseOwnership 0] init) =
     Inr [(0, Some 1, 5)]"
proof -
  let ?g = "\<lparr>value' = - 1::int, valid' = False, deleter' = Some (1::nat)\<rparr>"
  let ?st = "store 0 ?g (init\<lparr>calls := [(0, Some 1, 5)]\<rparr>)"
  have "heap ?st 0 = Some ?g" "\<not> valid' ?g"
    by simp_all
  from release_ownership_of_invalid [OF this, of "run 0 handle_env" handle_env] show ?thesis
    by (simp add: run_simps)
qed

end
